theory Spec2Isabelle
  imports Main
begin

section \<open>Configuration constants\<close>

text \<open>
  The module-level "safety knobs" of \<^verbatim>\<open>infinite_scroll.py\<close>. \<^verbatim>\<open>SCROLL_PAUSE_MS\<close> is
  never read by the code and is left out.
\<close>

definition STALL_LIMIT :: nat where
  "STALL_LIMIT = 4"

definition MAX_SCROLLS :: nat where
  "MAX_SCROLLS = 300"

section \<open>Errors and observable effects\<close>

text \<open>
  Two exceptions occur in the module: Playwright's \<^verbatim>\<open>TimeoutError\<close> (imported as
  \<^verbatim>\<open>PWTimeout\<close>), raised by every wait that carries a timeout, and \<^verbatim>\<open>SystemExit\<close>,
  raised by \<^verbatim>\<open>sys.exit(msg)\<close>. Other failures of the browser (a crashed or closed
  page) are outside the model.
\<close>

datatype error = PWTimeout | SystemExit string

datatype wait_state = attached | detached

type_synonym row = "string list"

text \<open>
  The calls the code makes on the browser and on its collaborators, in the order it makes
  them. \<^verbatim>\<open>print\<close> output is not recorded.
\<close>

datatype event =
    NewPage
  | Goto string
  | WaitForSelector nat
  | Count
  | Evaluate
  | Scroll
  | WaitFor wait_state nat
  | WaitForTimeout nat
  | AllInnerTexts
  | ClosePage
  | WriteCsv "row list"
  | PushToGsheet "row list"

text \<open>
  A computation yields the events it performed and either the exception it raised or
  its value. The events are kept when an exception is raised.
\<close>

type_synonym 'a io = "event list \<times> (error + 'a)"

section \<open>The page as seen by the convergence loop\<close>

text \<open>
  What the page answers during one pass of the loop body: whether the spinner attaches
  within the first bounded wait, whether it detaches within the second, and how many
  elements \<^verbatim>\<open>ITEM_SELECTOR\<close> matches at the progress check. A \<open>ctx\<close> gives the
  answers for pass \<open>0\<close>, \<open>1\<close>, \<dots>
\<close>

record observation =
  spinner_attached :: bool
  spinner_detached :: bool
  items :: nat

type_synonym ctx = "nat \<Rightarrow> observation"

record scroll_state =
  stalled :: nat
  seen :: int

datatype exit = STALL_EXIT | CAP_EXIT

section \<open>\<^verbatim>\<open>load_everything\<close>\<close>

text \<open>\<^verbatim>\<open>locator(...).wait_for(state=st, timeout=ms)\<close>: returns, or raises \<^verbatim>\<open>PWTimeout\<close>.\<close>

definition wait_for :: "bool \<Rightarrow> wait_state \<Rightarrow> nat \<Rightarrow> unit io" where
  "wait_for ok st ms = ([WaitFor st ms], if ok then Inr () else Inl PWTimeout)"

text \<open>The body of the \<^verbatim>\<open>try\<close> block: the second wait runs only if the first returned.\<close>

definition spinner_cycle :: "observation \<Rightarrow> unit io" where
  "spinner_cycle ob =
     (case wait_for (spinner_attached ob) attached 7000 of
        (l1, Inl e) \<Rightarrow> (l1, Inl e)
      | (l1, Inr _) \<Rightarrow>
          (case wait_for (spinner_detached ob) detached 7000 of
             (l2, r) \<Rightarrow> (l1 @ l2, r)))"

text \<open>\<^verbatim>\<open>except PWTimeout: pass\<close>: only that exception is swallowed.\<close>

definition except_PWTimeout :: "unit io \<Rightarrow> unit io" where
  "except_PWTimeout m =
     (case m of
        (l, Inl PWTimeout) \<Rightarrow> (l, Inr ())
      | (l, Inl (SystemExit msg)) \<Rightarrow> (l, Inl (SystemExit msg))
      | (l, Inr u) \<Rightarrow> (l, Inr u))"

text \<open>
  One pass of the \<^verbatim>\<open>for\<close> body: scroll, spinner cycle, debounce, progress check. The
  Boolean of the result says whether \<^verbatim>\<open>break\<close> was executed.
\<close>

definition loop_body :: "ctx \<Rightarrow> nat \<Rightarrow> scroll_state \<Rightarrow> (bool \<times> scroll_state) io" where
  "loop_body c i s =
     (let ob = c i in
      case except_PWTimeout (spinner_cycle ob) of
        (l, Inl e) \<Rightarrow> (Scroll # l, Inl e)
      | (l, Inr _) \<Rightarrow>
          (let lg = Scroll # l @ [WaitForTimeout 500, Count];
               new_seen = int (items ob)
           in if new_seen = seen s then
                (let s' = s\<lparr>stalled := stalled s + 1\<rparr>
                 in if stalled s' \<ge> STALL_LIMIT then (lg, Inr (True, s'))
                    else (lg, Inr (False, s')))
              else (lg, Inr (False, s\<lparr>seen := new_seen, stalled := 0\<rparr>))))"

text \<open>
  \<^verbatim>\<open>for _ in range(...)\<close> over the remaining indices: it stops at an exception or at
  \<^verbatim>\<open>break\<close>, and otherwise when the range is used up.
\<close>

fun for_range :: "ctx \<Rightarrow> nat list \<Rightarrow> scroll_state \<Rightarrow> (bool \<times> scroll_state) io" where
  "for_range c [] s = ([], Inr (False, s))"
| "for_range c (i # rest) s =
     (case loop_body c i s of
        (l, Inl e) \<Rightarrow> (l, Inl e)
      | (l, Inr (True, s')) \<Rightarrow> (l, Inr (True, s'))
      | (l, Inr (False, s')) \<Rightarrow>
          (case for_range c rest s' of (l', r) \<Rightarrow> (l @ l', r)))"

definition initial_state :: scroll_state where
  "initial_state = \<lparr>stalled = 0, seen = - 1\<rparr>"

text \<open>
  The function returns \<^verbatim>\<open>None\<close>; the model also hands back how the loop ended
  (\<open>STALL_EXIT\<close> for \<^verbatim>\<open>break\<close>, \<open>CAP_EXIT\<close> for a used-up range) and the final values
  of its two local variables.
\<close>

definition load_everything :: "ctx \<Rightarrow> (exit \<times> scroll_state) io" where
  "load_everything c =
     (case for_range c [0..<MAX_SCROLLS] initial_state of
        (l, Inl e) \<Rightarrow> (l, Inl e)
      | (l, Inr (broke, s)) \<Rightarrow> (l, Inr (if broke then STALL_EXIT else CAP_EXIT, s)))"

text \<open>The number of scroll-trigger invocations in a sequence of events.\<close>

definition scroll_count :: "event list \<Rightarrow> nat" where
  "scroll_count l = length (filter (\<lambda>e. e = Scroll) l)"

section \<open>Name normalisation\<close>

text \<open>
  Strings are lists of 8-bit characters, each standing for the code point of the same
  number. \<^verbatim>\<open>str.strip()\<close> removes the characters for which \<^verbatim>\<open>str.isspace\<close> holds;
  below 256 these are 9 to 13, 28 to 32, 133 and 160.
\<close>

definition isspace :: "char \<Rightarrow> bool" where
  "isspace ch = ((of_char ch :: nat) \<in> {9, 10, 11, 12, 13, 28, 29, 30, 31, 32, 133, 160})"

definition str_strip :: "string \<Rightarrow> string" where
  "str_strip s = rev (dropWhile isspace (rev (dropWhile isspace s)))"

text \<open>\<^verbatim>\<open>s.split(sep)\<close> for a one-character separator: never an empty list.\<close>

fun str_split :: "char \<Rightarrow> string \<Rightarrow> string list" where
  "str_split sep [] = [[]]"
| "str_split sep (ch # cs) =
     (if ch = sep then [] # str_split sep cs
      else (case str_split sep cs of
              [] \<Rightarrow> [[ch]]
            | p # ps \<Rightarrow> (ch # p) # ps))"

definition newline :: char where
  "newline = CHR 0x0A"

text \<open>\<^verbatim>\<open>n.strip().split("\n")[0]\<close>, the element expression of \<^verbatim>\<open>clean_names\<close>.\<close>

definition normalize_name :: "string \<Rightarrow> string" where
  "normalize_name n = hd (str_split newline (str_strip n))"

text \<open>
  The normalisation in the words of the specification: split on newlines, take the first
  segment, then trim.
\<close>

definition spec_normalize_name :: "string \<Rightarrow> string" where
  "spec_normalize_name n = str_strip (hd (str_split newline n))"

section \<open>\<^verbatim>\<open>scrape\<close>\<close>

text \<open>
  What one Target's page answers: whether navigation finishes within its timeout,
  whether the list component attaches within its timeout, the two counts taken before
  the loop (the first is only printed), the answers during the loop, and the inner texts
  of the name elements, in document order, after a given number of scrolls.
\<close>

record target =
  goto_ok :: bool
  list_attached :: bool
  rows_visible :: nat
  first_batch :: nat
  scrolling :: ctx
  all_inner_texts :: "nat \<Rightarrow> string list"

text \<open>
  The two lines of the text handed to \<^verbatim>\<open>sys.exit\<close>, without the symbol that leads the
  first and the blank layout around them.
\<close>

definition msg :: string where
  "msg = ''ITEM_SELECTOR matches 0 elements on the first screen.'' @ [CHR 0x0A] @
     ''Re-inspect the page and update ITEM_SELECTOR / FULL_SELECTOR.''"

text \<open>
  The body of \<^verbatim>\<open>for url in START_URLS\<close>, yielding \<^verbatim>\<open>run_rows\<close>. \<^verbatim>\<open>clean_names\<close> is
  computed, and only its length is printed. \<open>TODAY\<close> comes from the utilities module.
\<close>

definition scrape_target :: "string \<Rightarrow> string \<times> target \<Rightarrow> row list io" where
  "scrape_target TODAY ut =
     (case ut of (url, t) \<Rightarrow>
        if \<not> goto_ok t then ([NewPage, Goto url], Inl PWTimeout)
        else if \<not> list_attached t then
          ([NewPage, Goto url, WaitForSelector 15000], Inl PWTimeout)
        else
          (let pre = [NewPage, Goto url, WaitForSelector 15000, Count, Evaluate, Count]
           in if first_batch t = 0 then (pre, Inl (SystemExit msg))
              else
                (case load_everything (scrolling t) of
                   (l, Inl e) \<Rightarrow> (pre @ l, Inl e)
                 | (l, Inr _) \<Rightarrow>
                     (let names = all_inner_texts t (scroll_count l);
                          clean_names = map normalize_name names;
                          run_rows = map (\<lambda>name. [url, name, TODAY]) names
                      in (pre @ l @ [AllInnerTexts, ClosePage], Inr run_rows)))))"

text \<open>The loop over the worklist, extending \<^verbatim>\<open>all_rows\<close>.\<close>

fun for_urls :: "string \<Rightarrow> (string \<times> target) list \<Rightarrow> row list \<Rightarrow> row list io" where
  "for_urls TODAY [] all_rows = ([], Inr all_rows)"
| "for_urls TODAY (ut # uts) all_rows =
     (case scrape_target TODAY ut of
        (l, Inl e) \<Rightarrow> (l, Inl e)
      | (l, Inr run_rows) \<Rightarrow>
          (case for_urls TODAY uts (all_rows @ run_rows) of (l', r) \<Rightarrow> (l @ l', r)))"

text \<open>
  The whole run. \<open>clean_rows\<close> and the spreadsheet sink belong to the utilities module;
  the first is a parameter, the second an event. The worklist pairs each address with the
  behaviour of its page.
\<close>

definition scrape :: "(row list \<Rightarrow> row list) \<Rightarrow> string \<Rightarrow> (string \<times> target) list \<Rightarrow> row list io" where
  "scrape clean_rows TODAY START_URLS =
     (case for_urls TODAY START_URLS [] of
        (l, Inl e) \<Rightarrow> (l, Inl e)
      | (l, Inr all_rows) \<Rightarrow>
          (l @ [WriteCsv all_rows, PushToGsheet (clean_rows all_rows)], Inr all_rows))"


section \<open>Auxiliary definitions for the statements\<close>

text \<open>The events of one pass of the loop body on a page that answers \<open>ob\<close>.\<close>

definition body_events :: "observation \<Rightarrow> event list" where
  "body_events ob =
     Scroll # WaitFor attached 7000 #
     (if spinner_attached ob then [WaitFor detached 7000] else []) @
     [WaitForTimeout 500, Count]"

text \<open>The events of a Target's processing before the loop is entered.\<close>

definition pre_events :: "string \<Rightarrow> event list" where
  "pre_events url = [NewPage, Goto url, WaitForSelector 15000, Count, Evaluate, Count]"

text \<open>The rows of a Target that was processed to the end.\<close>

definition rows_of :: "string \<Rightarrow> string \<times> target \<Rightarrow> row list" where
  "rows_of TODAY ut =
     (case ut of (url, t) \<Rightarrow>
        map (\<lambda>name. [url, name, TODAY])
          (all_inner_texts t (scroll_count (fst (load_everything (scrolling t))))))"

text \<open>The events of a Target that is processed to the end.\<close>

definition target_events :: "string \<times> target \<Rightarrow> event list" where
  "target_events ut =
     (case ut of (url, t) \<Rightarrow>
        pre_events url @ fst (load_everything (scrolling t)) @ [AllInnerTexts, ClosePage])"

text \<open>A Target whose page loads, shows the list and has items at the first measurement.\<close>

definition loads :: "string \<times> target \<Rightarrow> bool" where
  "loads ut = (case ut of (url, t) \<Rightarrow> goto_ok t \<and> list_attached t \<and> first_batch t \<noteq> 0)"

text \<open>The events the loop can perform.\<close>

definition loop_event :: "event \<Rightarrow> bool" where
  "loop_event e = (e \<in> {Scroll, WaitFor attached 7000, WaitFor detached 7000, WaitForTimeout 500, Count})"


subsection \<open>Concrete pages\<close>

text \<open>A list that shows \<open>n\<close> items on every pass, and whose spinner never attaches.\<close>

definition steady :: "nat \<Rightarrow> ctx" where
  "steady n i = \<lparr>spinner_attached = False, spinner_detached = False, items = n\<rparr>"

text \<open>A list that gains one item on every pass, with a spinner that never detaches.\<close>

definition growing :: ctx where
  "growing i = \<lparr>spinner_attached = True, spinner_detached = False, items = Suc i\<rparr>"

text \<open>A Target that loads, shows \<open>length names\<close> items from the start, and carries \<open>names\<close>.\<close>

definition fixed_target :: "string list \<Rightarrow> target" where
  "fixed_target names =
     \<lparr>goto_ok = True, list_attached = True, rows_visible = length names,
      first_batch = length names, scrolling = steady (length names),
      all_inner_texts = (\<lambda>k. names)\<rparr>"

text \<open>A Target that loads and keeps growing: after \<open>k\<close> scrolls it shows \<open>k\<close> names.\<close>

definition endless_target :: target where
  "endless_target =
     \<lparr>goto_ok = True, list_attached = True, rows_visible = 1, first_batch = 1,
      scrolling = growing, all_inner_texts = (\<lambda>k. replicate k ''Acme'')\<rparr>"

section \<open>Properties of the loop\<close>

lemma except_spinner_cycle:
  "except_PWTimeout (spinner_cycle ob) =
     (WaitFor attached 7000 # (if spinner_attached ob then [WaitFor detached 7000] else []), Inr ())"
  by (simp add: except_PWTimeout_def spinner_cycle_def wait_for_def)

lemma loop_body_eq:
  "loop_body c i s =
     (body_events (c i),
      Inr (if int (items (c i)) = seen s
           then (STALL_LIMIT \<le> stalled s + 1, s\<lparr>stalled := stalled s + 1\<rparr>)
           else (False, s\<lparr>seen := int (items (c i)), stalled := 0\<rparr>)))"
  by (simp add: loop_body_def except_spinner_cycle body_events_def Let_def)

lemma scroll_count_body [simp]: "scroll_count (body_events ob) = 1"
  by (simp add: scroll_count_def body_events_def)

lemma scroll_count_append [simp]: "scroll_count (l @ l') = scroll_count l + scroll_count l'"
  by (simp add: scroll_count_def)

lemma for_range_append:
  "for_range c (xs @ ys) s =
     (case for_range c xs s of
        (l, Inl e) \<Rightarrow> (l, Inl e)
      | (l, Inr (True, s')) \<Rightarrow> (l, Inr (True, s'))
      | (l, Inr (False, s')) \<Rightarrow> (case for_range c ys s' of (l', r) \<Rightarrow> (l @ l', r)))"
proof (induction xs arbitrary: s)
  case Nil
  show ?case by (simp split: prod.splits)
next
  case (Cons i xs)
  show ?case
    by (simp add: loop_body_eq Cons.IH split: prod.splits sum.splits bool.splits)
qed

lemma for_range_total:
  "\<exists>l b s'. for_range c xs s = (l, Inr (b, s')) \<and> scroll_count l \<le> length xs
     \<and> (\<not> b \<longrightarrow> scroll_count l = length xs)"
proof (induction xs arbitrary: s)
  case Nil
  show ?case by (auto simp: scroll_count_def)
next
  case (Cons i xs)
  obtain b1 s1 where b: "loop_body c i s = (body_events (c i), Inr (b1, s1))"
    by (metis loop_body_eq surj_pair)
  show ?case
  proof (cases b1)
    case True
    with b show ?thesis by auto
  next
    case False
    from Cons.IH [of s1] obtain l b' s' where
      r: "for_range c xs s1 = (l, Inr (b', s'))" "scroll_count l \<le> length xs"
         "\<not> b' \<longrightarrow> scroll_count l = length xs"
      by blast
    with b False show ?thesis by auto
  qed
qed

lemma load_everything_total:
  "\<exists>l x s. load_everything c = (l, Inr (x, s)) \<and> scroll_count l \<le> MAX_SCROLLS \<and>
     (x = CAP_EXIT \<longrightarrow> scroll_count l = MAX_SCROLLS)"
proof -
  from for_range_total [of c "[0..<MAX_SCROLLS]" initial_state] obtain l b s where
    r: "for_range c [0..<MAX_SCROLLS] initial_state = (l, Inr (b, s))"
       "scroll_count l \<le> MAX_SCROLLS" "\<not> b \<longrightarrow> scroll_count l = MAX_SCROLLS"
    by auto
  then show ?thesis by (auto simp: load_everything_def)
qed

lemma stall_run:
  "0 < j \<Longrightarrow> stalled s + j = STALL_LIMIT \<Longrightarrow> \<forall>m<j. int (items (c (k + m))) = seen s \<Longrightarrow>
   \<exists>l. for_range c [k..<k + j] s = (l, Inr (True, s\<lparr>stalled := STALL_LIMIT\<rparr>)) \<and> scroll_count l = j"
proof (induction j arbitrary: k s)
  case 0
  then show ?case by simp
next
  case (Suc j)
  have same0: "int (items (c k)) = seen s" using Suc.prems(3) [rule_format, of 0] by simp
  have unfold: "[k..<k + Suc j] = k # [Suc k..<Suc k + j]" by (simp add: upt_conv_Cons)
  show ?case
  proof (cases "j = 0")
    case True
    with Suc.prems same0 show ?thesis by (simp add: loop_body_eq)
  next
    case False
    let ?s1 = "s\<lparr>stalled := stalled s + 1\<rparr>"
    have nobreak: "\<not> STALL_LIMIT \<le> stalled s + 1" using Suc.prems(2) False by simp
    have "\<forall>m<j. int (items (c (Suc k + m))) = seen ?s1"
      using Suc.prems(3) by (auto dest: spec [of _ "Suc m" for m])
    moreover have "stalled ?s1 + j = STALL_LIMIT" using Suc.prems(2) by simp
    ultimately obtain l where
      l: "for_range c [Suc k..<Suc k + j] ?s1 = (l, Inr (True, ?s1\<lparr>stalled := STALL_LIMIT\<rparr>))"
         "scroll_count l = j"
      using Suc.IH [of ?s1 "Suc k"] False by auto
    show ?thesis
      unfolding unfold using l same0 nobreak by (simp add: loop_body_eq)
  qed
qed

lemma growing_run:
  "seen s \<le> int k \<Longrightarrow> 0 < n \<Longrightarrow>
   \<exists>l. for_range growing [k..<k + n] s = (l, Inr (False, \<lparr>stalled = 0, seen = int (k + n)\<rparr>)) \<and>
       scroll_count l = n"
proof (induction n arbitrary: k s)
  case 0
  then show ?case by simp
next
  case (Suc n)
  have unfold: "[k..<k + Suc n] = k # [Suc k..<Suc k + n]" by (simp add: upt_conv_Cons)
  let ?s1 = "s\<lparr>seen := int (Suc k), stalled := 0\<rparr>"
  have step: "loop_body growing k s = (body_events (growing k), Inr (False, ?s1))"
    using Suc.prems(1) by (simp add: loop_body_eq growing_def)
  show ?case
  proof (cases "n = 0")
    case True
    with step show ?thesis by simp
  next
    case False
    with Suc.IH [of ?s1 "Suc k"] obtain l where
      "for_range growing [Suc k..<Suc k + n] ?s1 =
         (l, Inr (False, \<lparr>stalled = 0, seen = int (Suc k + n)\<rparr>))" "scroll_count l = n"
      by auto
    with step show ?thesis unfolding unfold by simp
  qed
qed

lemma growing_cap:
  "\<exists>l. load_everything growing = (l, Inr (CAP_EXIT, \<lparr>stalled = 0, seen = int MAX_SCROLLS\<rparr>)) \<and>
       scroll_count l = MAX_SCROLLS"
proof -
  have "seen initial_state \<le> int 0" by (simp add: initial_state_def)
  moreover have "0 < MAX_SCROLLS" by (simp add: MAX_SCROLLS_def)
  ultimately obtain l where
    "for_range growing [0..<0 + MAX_SCROLLS] initial_state =
       (l, Inr (False, \<lparr>stalled = 0, seen = int (0 + MAX_SCROLLS)\<rparr>))" "scroll_count l = MAX_SCROLLS"
    using growing_run [of initial_state 0 MAX_SCROLLS] by blast
  then show ?thesis by (simp add: load_everything_def)
qed

lemma body_events_loop: "list_all loop_event (body_events ob)"
  by (simp add: body_events_def loop_event_def)

lemma for_range_events: "list_all loop_event (fst (for_range c xs s))"
proof (induction xs arbitrary: s)
  case Nil
  show ?case by simp
next
  case (Cons i xs)
  obtain b1 s1 where b: "loop_body c i s = (body_events (c i), Inr (b1, s1))"
    by (metis loop_body_eq surj_pair)
  show ?case
  proof (cases b1)
    case True
    with b show ?thesis by (simp add: body_events_loop)
  next
    case False
    obtain l' r where r: "for_range c xs s1 = (l', r)" by (cases "for_range c xs s1")
    with Cons.IH [of s1] have "list_all loop_event l'" by simp
    with b False r show ?thesis by (simp add: body_events_loop)
  qed
qed

lemma load_everything_events: "list_all loop_event (fst (load_everything c))"
  using for_range_events [of c "[0..<MAX_SCROLLS]" initial_state]
  by (auto simp: load_everything_def split: prod.splits sum.splits)

section \<open>Properties of the run\<close>

lemma scrape_target_ok:
  assumes "goto_ok t" "list_attached t" "first_batch t \<noteq> 0"
  shows "scrape_target TODAY (url, t) = (target_events (url, t), Inr (rows_of TODAY (url, t)))"
proof -
  obtain l x s where "load_everything (scrolling t) = (l, Inr (x, s))"
    using load_everything_total [of "scrolling t"] by blast
  with assms show ?thesis
    by (simp add: scrape_target_def pre_events_def rows_of_def target_events_def Let_def)
qed

lemma scrape_target_zero:
  assumes "goto_ok t" "list_attached t" "first_batch t = 0"
  shows "scrape_target TODAY (url, t) = (pre_events url, Inl (SystemExit msg))"
  using assms by (simp add: scrape_target_def pre_events_def)

lemma scrape_target_Inr:
  assumes "scrape_target TODAY ut = (l, Inr rr)"
  shows "loads ut \<and> l = target_events ut \<and> rr = rows_of TODAY ut"
proof -
  obtain url t where ut: "ut = (url, t)" by (cases ut)
  have ok: "goto_ok t \<and> list_attached t \<and> first_batch t \<noteq> 0"
    using assms unfolding ut scrape_target_def by (auto simp: Let_def split: if_splits)
  with assms scrape_target_ok [of t TODAY url] show ?thesis by (simp add: ut loads_def)
qed

lemma for_urls_append:
  "for_urls TODAY (xs @ ys) acc =
     (case for_urls TODAY xs acc of
        (l, Inl e) \<Rightarrow> (l, Inl e)
      | (l, Inr rows) \<Rightarrow> (case for_urls TODAY ys rows of (l', r) \<Rightarrow> (l @ l', r)))"
proof (induction xs arbitrary: acc)
  case Nil
  show ?case by (simp split: prod.splits)
next
  case (Cons ut xs)
  show ?case by (simp add: Cons.IH split: prod.splits sum.splits)
qed

lemma for_urls_Inr:
  "for_urls TODAY uts acc = (l, Inr rows) \<Longrightarrow>
     list_all loads uts \<and> l = concat (map target_events uts) \<and>
     rows = acc @ concat (map (rows_of TODAY) uts)"
proof (induction uts arbitrary: acc l)
  case Nil
  then show ?case by simp
next
  case (Cons ut uts)
  from Cons.prems obtain l1 rr l2 where
    a: "scrape_target TODAY ut = (l1, Inr rr)" and
    b: "for_urls TODAY uts (acc @ rr) = (l2, Inr rows)" and
    c: "l = l1 @ l2"
    by (auto split: prod.splits sum.splits)
  from scrape_target_Inr [OF a] Cons.IH [OF b] c show ?case by simp
qed

lemma for_urls_ok:
  "list_all loads uts \<Longrightarrow>
   for_urls TODAY uts acc =
     (concat (map target_events uts), Inr (acc @ concat (map (rows_of TODAY) uts)))"
proof (induction uts arbitrary: acc)
  case Nil
  show ?case by simp
next
  case (Cons ut uts)
  obtain url t where ut: "ut = (url, t)" by (cases ut)
  from Cons.prems have one: "loads (url, t)" and rest: "list_all loads uts"
    by (simp_all add: ut)
  from one have "goto_ok t" "list_attached t" "first_batch t \<noteq> 0"
    by (simp_all add: loads_def)
  with rest scrape_target_ok [of t TODAY url] Cons.IH [of "acc @ rows_of TODAY ut"]
  show ?case by (simp add: ut)
qed

lemma loads_fixed: "loads (url, fixed_target (n # ns))"
  by (simp add: loads_def fixed_target_def)

lemma rows_of_fixed: "rows_of TODAY (url, fixed_target ns) = map (\<lambda>name. [url, name, TODAY]) ns"
  by (simp add: rows_of_def fixed_target_def)

lemma target_events_no_output:
  "WriteCsv rs \<notin> set (target_events ut) \<and> PushToGsheet rs \<notin> set (target_events ut)"
proof -
  obtain url t where ut: "ut = (url, t)" by (cases ut)
  have "list_all loop_event (fst (load_everything (scrolling t)))"
    by (rule load_everything_events)
  then have "WriteCsv rs \<notin> set (fst (load_everything (scrolling t))) \<and>
             PushToGsheet rs \<notin> set (fst (load_everything (scrolling t)))"
    by (auto simp: list_all_iff loop_event_def)
  then show ?thesis by (simp add: ut target_events_def pre_events_def)
qed

section \<open>Counting open pages\<close>













section \<open>Properties of the normalisation\<close>

lemma str_split_nonempty: "str_split sep s \<noteq> []"
  by (induction s) (auto split: list.splits)

lemma str_split_hd: "hd (str_split sep s) = takeWhile (\<lambda>ch. ch \<noteq> sep) s"
  using str_split_nonempty [of sep "tl s"]
  by (induction s) (auto split: list.splits simp: str_split_nonempty)

lemma str_strip_no_leading_space: "dropWhile isspace (str_strip s) = str_strip s"
proof (cases "dropWhile isspace s")
  case Nil
  show ?thesis unfolding str_strip_def Nil by simp
next
  case (Cons ch cs)
  then have ch: "\<not> isspace ch" by (metis hd_dropWhile list.sel(1) list.distinct(1))
  have "dropWhile isspace (rev (ch # cs)) = ys @ [ch] \<Longrightarrow> str_strip s = ch # rev ys" for ys
    by (simp add: str_strip_def Cons)
  moreover have "\<exists>ys. dropWhile isspace (rev (ch # cs)) = ys @ [ch]"
  proof -
    have "dropWhile isspace (rev cs @ [ch]) = dropWhile isspace (rev cs) @ [ch]"
      using ch by (simp add: dropWhile_append)
    then show ?thesis by auto
  qed
  ultimately obtain ys where "str_strip s = ch # rev ys" by blast
  with ch show ?thesis by simp
qed

lemma normalize_name_first_line:
  "normalize_name raw = takeWhile (\<lambda>ch. ch \<noteq> newline) (str_strip raw)"
  by (simp add: normalize_name_def str_split_hd)

lemma isspace_newline: "isspace newline"
  by (simp add: isspace_def newline_def)

section \<open>Stall exit\<close>

text \<open>
  Claim C1. Suppose the loop is still running after \<open>k\<close> passes, in state \<open>s\<close>, and the
  next \<open>j\<close> passes all measure a count equal to \<open>seen s\<close>, where \<open>j\<close> is what the stall
  counter lacks to reach \<open>STALL_LIMIT\<close> and the cap leaves room for these passes. Then
  \<^verbatim>\<open>load_everything\<close> ends by \<^verbatim>\<open>break\<close> (\<open>STALL_EXIT\<close>) with the counter at the limit,
  after exactly \<open>k + j\<close> scrolls: on the pass on which the counter reaches the limit and on
  no later one.
\<close>

theorem stall_triggers_exit:
  assumes running: "for_range c [0..<k] initial_state = (l, Inr (False, s))"
      and room: "k + j \<le> MAX_SCROLLS"
      and pos: "0 < j"
      and reach: "stalled s + j = STALL_LIMIT"
      and same: "\<forall>m<j. int (items (c (k + m))) = seen s"
  shows "\<exists>l'. load_everything c = (l @ l', Inr (STALL_EXIT, s\<lparr>stalled := STALL_LIMIT\<rparr>)) \<and>
           scroll_count (l @ l') = k + j"
proof -
  from stall_run [OF pos reach same] obtain l' where
    l': "for_range c [k..<k + j] s = (l', Inr (True, s\<lparr>stalled := STALL_LIMIT\<rparr>))"
        "scroll_count l' = j"
    by blast
  have k: "scroll_count l = k"
    using for_range_total [of c "[0..<k]" initial_state] running by auto
  obtain d where d: "MAX_SCROLLS = (k + j) + d" using room by (auto simp: le_iff_add)
  have "[0..<k + j + d] = [0..<k + j] @ [k + j..<k + j + d]"
    by (rule upt_add_eq_append) simp
  moreover have "[0..<k + j] = [0..<k] @ [k..<k + j]"
    by (rule upt_add_eq_append) simp
  ultimately have split: "[0..<MAX_SCROLLS] = [0..<k] @ [k..<k + j] @ [k + j..<k + j + d]"
    unfolding d by (simp only: append_assoc)
  have "for_range c [0..<MAX_SCROLLS] initial_state =
          (l @ l', Inr (True, s\<lparr>stalled := STALL_LIMIT\<rparr>))"
    unfolding split by (simp add: for_range_append running l')
  then show ?thesis using k l' by (simp add: load_everything_def)
qed

text \<open>
  The page that always shows 7 items: after the first pass the loop runs with
  \<open>stalled = 0\<close> and \<open>seen = 7\<close>; four more passes with the same count end it.
\<close>

theorem stall_triggers_exit_witness:
  "for_range (steady 7) [0..<1] initial_state =
     ([Scroll, WaitFor attached 7000, WaitForTimeout 500, Count],
      Inr (False, \<lparr>stalled = 0, seen = 7\<rparr>)) \<and>
   1 + 4 \<le> MAX_SCROLLS \<and> (0::nat) < 4 \<and>
   stalled \<lparr>stalled = 0, seen = 7\<rparr> + 4 = STALL_LIMIT \<and>
   items (steady 7 1) = 7 \<and> items (steady 7 2) = 7 \<and>
   items (steady 7 3) = 7 \<and> items (steady 7 4) = 7 \<and>
   snd (load_everything (steady 7)) = Inr (STALL_EXIT, \<lparr>stalled = 4, seen = 7\<rparr>) \<and>
   scroll_count (fst (load_everything (steady 7))) = 5"
proof -
  have run: "for_range (steady 7) [0..<1] initial_state =
     ([Scroll, WaitFor attached 7000, WaitForTimeout 500, Count],
      Inr (False, \<lparr>stalled = 0, seen = 7\<rparr>))"
    by (simp add: loop_body_eq body_events_def steady_def initial_state_def)
  have room: "1 + 4 \<le> MAX_SCROLLS" by (simp add: MAX_SCROLLS_def)
  have reach: "stalled \<lparr>stalled = 0, seen = 7\<rparr> + 4 = STALL_LIMIT" by (simp add: STALL_LIMIT_def)
  have same: "\<forall>m<4. int (items (steady 7 (1 + m))) = seen \<lparr>stalled = 0, seen = 7\<rparr>"
    by (simp add: steady_def)
  from stall_triggers_exit [OF run room _ reach same]
  have "\<exists>l'. load_everything (steady 7) =
      ([Scroll, WaitFor attached 7000, WaitForTimeout 500, Count] @ l',
       Inr (STALL_EXIT, \<lparr>stalled = 0, seen = 7\<rparr>\<lparr>stalled := STALL_LIMIT\<rparr>)) \<and>
      scroll_count ([Scroll, WaitFor attached 7000, WaitForTimeout 500, Count] @ l') = 1 + 4"
    by simp
  then have "snd (load_everything (steady 7)) = Inr (STALL_EXIT, \<lparr>stalled = 4, seen = 7\<rparr>) \<and>
     scroll_count (fst (load_everything (steady 7))) = 5"
    by (auto simp: STALL_LIMIT_def)
  with run room reach show ?thesis by (simp add: steady_def)
qed

section \<open>The absolute cap\<close>

text \<open>
  Claim C2. For every page \<^verbatim>\<open>load_everything\<close> returns without raising, after at most
  \<open>MAX_SCROLLS\<close> scrolls, and after exactly that many when the range is used up
  (\<open>CAP_EXIT\<close>). For a Target that loads and shows items, the names are then read and the
  rows built from whatever the page holds after these scrolls, however the loop ended.
\<close>

theorem cap_is_absolute:
  "(\<exists>l x s. load_everything c = (l, Inr (x, s)) \<and> scroll_count l \<le> MAX_SCROLLS \<and>
      (x = CAP_EXIT \<longrightarrow> scroll_count l = MAX_SCROLLS)) \<and>
   (goto_ok t \<and> list_attached t \<and> first_batch t \<noteq> 0 \<longrightarrow>
      scrape_target TODAY (url, t) =
        ([NewPage, Goto url, WaitForSelector 15000, Count, Evaluate, Count] @
           fst (load_everything (scrolling t)) @ [AllInnerTexts, ClosePage],
         Inr (map (\<lambda>name. [url, name, TODAY])
                (all_inner_texts t (scroll_count (fst (load_everything (scrolling t))))))))"
  using load_everything_total [of c] scrape_target_ok [of t TODAY url]
  by (simp add: target_events_def pre_events_def rows_of_def)

text \<open>
  A list that grows on every pass never stalls: the loop stops at the cap, after 300
  scrolls, and the 300 names then present become rows.
\<close>

theorem cap_is_absolute_witness:
  "goto_ok endless_target \<and> list_attached endless_target \<and> first_batch endless_target \<noteq> 0 \<and>
   snd (load_everything growing) = Inr (CAP_EXIT, \<lparr>stalled = 0, seen = 300\<rparr>) \<and>
   scroll_count (fst (load_everything growing)) = 300 \<and>
   snd (scrape_target ''2024-05-01'' (''A'', endless_target)) =
     Inr (replicate 300 [''A'', ''Acme'', ''2024-05-01''])"
proof -
  from growing_cap obtain l where
    l: "load_everything growing = (l, Inr (CAP_EXIT, \<lparr>stalled = 0, seen = int MAX_SCROLLS\<rparr>))"
       "scroll_count l = MAX_SCROLLS"
    by blast
  have ok: "goto_ok endless_target \<and> list_attached endless_target \<and> first_batch endless_target \<noteq> 0"
    by (simp add: endless_target_def)
  from cap_is_absolute [of growing endless_target "''2024-05-01''" "''A''"] ok
  have "snd (scrape_target ''2024-05-01'' (''A'', endless_target)) =
      Inr (map (\<lambda>name. [''A'', name, ''2024-05-01''])
        (all_inner_texts endless_target
           (scroll_count (fst (load_everything (scrolling endless_target))))))"
    by simp
  with l ok show ?thesis by (simp add: endless_target_def MAX_SCROLLS_def)
qed

section \<open>An unchanged list\<close>

text \<open>
  Claim C3, as stated: with the same count on every pass from pass 0 the loop reaches
  \<open>STALL_EXIT\<close> in exactly \<open>STALL_LIMIT\<close> passes. On the page that always shows 7 items
  the loop is still running after its first \<open>STALL_LIMIT\<close> passes, with three stalls
  counted: the first pass meets \<open>seen = - 1\<close> and counts as progress. It ends by
  \<^verbatim>\<open>break\<close> with \<open>seen = 7\<close> only on the next pass, after 5 scrolls, not 4.
\<close>

theorem constant_count_counterexample:
  "snd (for_range (steady 7) [0..<STALL_LIMIT] initial_state) =
     Inr (False, \<lparr>stalled = 3, seen = 7\<rparr>) \<and>
   snd (load_everything (steady 7)) = Inr (STALL_EXIT, \<lparr>stalled = 4, seen = 7\<rparr>) \<and>
   scroll_count (fst (load_everything (steady 7))) = 5 \<and>
   scroll_count (fst (load_everything (steady 7))) \<noteq> STALL_LIMIT"
proof -
  have range: "[0..<STALL_LIMIT] = [0, 1, 2, 3]"
    by (simp add: STALL_LIMIT_def upt_conv_Cons)
  have running: "snd (for_range (steady 7) [0..<STALL_LIMIT] initial_state) =
      Inr (False, \<lparr>stalled = 3, seen = 7\<rparr>)"
    unfolding range by (simp add: loop_body_eq steady_def initial_state_def STALL_LIMIT_def)
  let ?s = "\<lparr>stalled = 0, seen = 7\<rparr>"
  have first: "for_range (steady 7) [0..<1] initial_state =
      (body_events (steady 7 0), Inr (False, ?s))"
    by (simp add: loop_body_eq initial_state_def steady_def)
  have "\<forall>m<4. int (items (steady 7 (1 + m))) = seen ?s" by (simp add: steady_def)
  from stall_run [of 4 ?s "steady 7" 1, OF _ _ this] obtain l where
    l: "for_range (steady 7) [1..<1 + 4] ?s = (l, Inr (True, ?s\<lparr>stalled := STALL_LIMIT\<rparr>))"
       "scroll_count l = 4"
    by (auto simp: STALL_LIMIT_def)
  have m: "MAX_SCROLLS = 1 + 4 + 295" by (simp add: MAX_SCROLLS_def)
  have "[0..<1 + 4 + 295] = [0..<1 + 4] @ [1 + 4..<1 + 4 + 295]"
    by (rule upt_add_eq_append) simp
  moreover have "[0..<1 + 4] = [0..<1] @ [1..<1 + 4]"
    by (rule upt_add_eq_append) simp
  ultimately have split: "[0..<MAX_SCROLLS] = [0..<1] @ [1..<1 + 4] @ [1 + 4..<1 + 4 + 295]"
    unfolding m by (simp only: append_assoc)
  have "load_everything (steady 7) =
      (body_events (steady 7 0) @ l, Inr (STALL_EXIT, ?s\<lparr>stalled := STALL_LIMIT\<rparr>))"
    unfolding load_everything_def split
    by (simp only: for_range_append first l prod.case sum.case bool.case if_True)
  then have "snd (load_everything (steady 7)) = Inr (STALL_EXIT, \<lparr>stalled = 4, seen = 7\<rparr>) \<and>
      scroll_count (fst (load_everything (steady 7))) = 5 \<and>
      scroll_count (fst (load_everything (steady 7))) \<noteq> STALL_LIMIT"
    using l by (simp add: STALL_LIMIT_def)
  with running show ?thesis by blast
qed

text \<open>
  Claim C3, amended. If the count is the same value \<open>n\<close> on the passes \<open>0\<close> to
  \<open>STALL_LIMIT\<close>, the loop started from \<open>seen = - 1\<close>, \<open>stalled = 0\<close> ends in \<open>STALL_EXIT\<close>
  after exactly \<open>STALL_LIMIT + 1\<close> passes, with \<open>seen = n\<close> and \<open>stalled = STALL_LIMIT\<close>.
\<close>

theorem constant_count_exit:
  assumes const: "\<forall>i\<le>STALL_LIMIT. items (c i) = n"
  shows "\<exists>l. load_everything c = (l, Inr (STALL_EXIT, \<lparr>stalled = STALL_LIMIT, seen = int n\<rparr>)) \<and>
           scroll_count l = STALL_LIMIT + 1"
proof -
  let ?s = "\<lparr>stalled = 0, seen = int n\<rparr>"
  have c0: "items (c 0) = n" using const by simp
  have first: "for_range c [0..<1] initial_state = (body_events (c 0), Inr (False, ?s))"
    by (simp add: loop_body_eq initial_state_def c0)
  have "\<forall>m<STALL_LIMIT. int (items (c (1 + m))) = seen ?s" using const by simp
  from stall_run [of STALL_LIMIT ?s c 1, OF _ _ this] obtain l where
    l: "for_range c [1..<1 + STALL_LIMIT] ?s = (l, Inr (True, ?s\<lparr>stalled := STALL_LIMIT\<rparr>))"
       "scroll_count l = STALL_LIMIT"
    by (auto simp: STALL_LIMIT_def)
  have d: "MAX_SCROLLS = (1 + STALL_LIMIT) + 295" by (simp add: MAX_SCROLLS_def STALL_LIMIT_def)
  have "[0..<1 + STALL_LIMIT + 295] = [0..<1 + STALL_LIMIT] @ [1 + STALL_LIMIT..<1 + STALL_LIMIT + 295]"
    by (rule upt_add_eq_append) simp
  moreover have "[0..<1 + STALL_LIMIT] = [0..<1] @ [1..<1 + STALL_LIMIT]"
    by (rule upt_add_eq_append) simp
  ultimately have split: "[0..<MAX_SCROLLS] =
      [0..<1] @ [1..<1 + STALL_LIMIT] @ [1 + STALL_LIMIT..<1 + STALL_LIMIT + 295]"
    unfolding d by (simp only: append_assoc)
  have "for_range c [0..<MAX_SCROLLS] initial_state =
          (body_events (c 0) @ l, Inr (True, ?s\<lparr>stalled := STALL_LIMIT\<rparr>))"
    unfolding split by (simp only: for_range_append first l prod.case sum.case bool.case)
  then show ?thesis using l by (simp add: load_everything_def)
qed

theorem constant_count_exit_witness:
  "items (steady 7 0) = 7 \<and> items (steady 7 1) = 7 \<and> items (steady 7 2) = 7 \<and>
   items (steady 7 3) = 7 \<and> items (steady 7 4) = 7 \<and>
   snd (load_everything (steady 7)) = Inr (STALL_EXIT, \<lparr>stalled = 4, seen = 7\<rparr>) \<and>
   scroll_count (fst (load_everything (steady 7))) = 4 + 1"
  using constant_count_exit [of "steady 7" 7] by (auto simp: steady_def STALL_LIMIT_def)

section \<open>No items at the first measurement\<close>

text \<open>
  Claim C4. If the Targets before it were processed to the end and a Target's page loads
  but \<open>first_batch\<close> is 0, the run ends with \<^verbatim>\<open>SystemExit\<close> carrying the diagnostic. The
  events of that Target stop at the count: no scroll, so the loop was not entered. Nothing
  is done for the Targets after it, and neither the CSV file nor the sheet receives any
  row.
\<close>

theorem zero_initial_items_aborts:
  assumes earlier: "list_all loads before"
      and "goto_ok t" "list_attached t"
      and zero: "first_batch t = 0"
  shows "scrape clean_rows TODAY (before @ (url, t) # after) =
           (concat (map target_events before) @
              [NewPage, Goto url, WaitForSelector 15000, Count, Evaluate, Count],
            Inl (SystemExit msg)) \<and>
         (\<forall>rs. WriteCsv rs \<notin> set (fst (scrape clean_rows TODAY (before @ (url, t) # after))) \<and>
               PushToGsheet rs \<notin> set (fst (scrape clean_rows TODAY (before @ (url, t) # after))))"
proof -
  have eq: "scrape clean_rows TODAY (before @ (url, t) # after) =
           (concat (map target_events before) @
              [NewPage, Goto url, WaitForSelector 15000, Count, Evaluate, Count],
            Inl (SystemExit msg))"
    using assms scrape_target_zero [of t TODAY url] for_urls_ok [of before TODAY "[]"]
    by (simp add: scrape_def for_urls_append pre_events_def)
  show ?thesis unfolding eq using target_events_no_output by auto
qed

theorem zero_initial_items_aborts_witness:
  "list_all loads [(''A'', fixed_target [''Acme''])] \<and>
   goto_ok (fixed_target []) \<and> list_attached (fixed_target []) \<and> first_batch (fixed_target []) = 0 \<and>
   scrape id ''2024-05-01''
     ([(''A'', fixed_target [''Acme''])] @ (''B'', fixed_target []) # [(''C'', fixed_target [''Bolt''])]) =
     (target_events (''A'', fixed_target [''Acme'']) @
        [NewPage, Goto ''B'', WaitForSelector 15000, Count, Evaluate, Count],
      Inl (SystemExit msg))"
proof -
  have a: "list_all loads [(''A'', fixed_target [''Acme''])]" by (simp add: loads_fixed)
  have b: "goto_ok (fixed_target [])" "list_attached (fixed_target [])" "first_batch (fixed_target []) = 0"
    by (simp_all add: fixed_target_def)
  from zero_initial_items_aborts [OF a b, of id "''2024-05-01''" "''B''" "[(''C'', fixed_target [''Bolt''])]"] a b
  show ?thesis by simp
qed

section \<open>The name placed into a row\<close>

text \<open>
  Claim C5 says every row carries the normalised name. \<^verbatim>\<open>scrape\<close> computes
  \<^verbatim>\<open>clean_names\<close> and then builds \<^verbatim>\<open>run_rows\<close> from \<^verbatim>\<open>names\<close>: on a page whose only
  name element reads "Acme Corp", newline, "Following", the row holds that raw text, while
  its normalisation is "Acme Corp".
\<close>

theorem rows_carry_raw_names:
  "snd (scrape id ''2024-05-01'' [(''A'', fixed_target [''Acme Corp\<newline>Following''])]) =
     Inr [[''A'', ''Acme Corp\<newline>Following'', ''2024-05-01'']] \<and>
   normalize_name ''Acme Corp\<newline>Following'' = ''Acme Corp''"
proof -
  let ?U = "[(''A'', fixed_target [''Acme Corp\<newline>Following''])]"
  have "for_urls ''2024-05-01'' ?U [] =
      (concat (map target_events ?U), Inr ([] @ concat (map (rows_of ''2024-05-01'') ?U)))"
    by (rule for_urls_ok) (simp add: loads_fixed)
  then have "snd (scrape id ''2024-05-01'' ?U) = Inr [[''A'', ''Acme Corp\<newline>Following'', ''2024-05-01'']]"
    by (simp add: scrape_def rows_of_fixed)
  moreover have "normalize_name ''Acme Corp\<newline>Following'' = ''Acme Corp''"
    by (simp add: normalize_name_def str_strip_def isspace_def newline_def)
  ultimately show ?thesis by simp
qed

section \<open>Order of trimming and splitting\<close>

text \<open>
  Claim C6, as stated: the normalisation splits on newlines, takes the first segment and
  then trims. The code trims first: on "Acme Corp ", newline, "Following" it keeps the
  blank before the newline, which splitting first and trimming afterwards removes.
\<close>

theorem split_then_trim_counterexample:
  "normalize_name ''Acme Corp \<newline>Following'' = ''Acme Corp '' \<and>
   spec_normalize_name ''Acme Corp \<newline>Following'' = ''Acme Corp'' \<and>
   normalize_name ''Acme Corp \<newline>Following'' \<noteq> spec_normalize_name ''Acme Corp \<newline>Following''"
  by (simp add: normalize_name_def spec_normalize_name_def str_strip_def isspace_def newline_def)

text \<open>
  Claim C6, amended. The normalisation trims the whole raw string, then splits on
  newlines and takes the first segment: its result is the trimmed string up to its first
  newline, holds no newline and starts with no whitespace. It maps "Acme Corp", newline,
  "Following" to "Acme Corp".
\<close>

theorem normalize_name_strips_then_takes_first_line:
  "normalize_name raw = takeWhile (\<lambda>ch. ch \<noteq> newline) (str_strip raw) \<and>
   newline \<notin> set (normalize_name raw) \<and>
   dropWhile isspace (normalize_name raw) = normalize_name raw \<and>
   normalize_name ''Acme Corp\<newline>Following'' = ''Acme Corp''"
proof -
  have a: "normalize_name raw = takeWhile (\<lambda>ch. ch \<noteq> newline) (str_strip raw)"
    by (rule normalize_name_first_line)
  have b: "newline \<notin> set (normalize_name raw)"
    unfolding a by (auto dest: set_takeWhileD)
  have c: "dropWhile isspace (normalize_name raw) = normalize_name raw"
  proof (cases "str_strip raw")
    case Nil
    then show ?thesis by (simp add: a)
  next
    case (Cons ch cs)
    have "length (dropWhile isspace cs) \<le> length cs" by (rule length_dropWhile_le)
    with Cons str_strip_no_leading_space [of raw] have "\<not> isspace ch"
      by (auto split: if_splits)
    moreover from this have "ch \<noteq> newline" using isspace_newline by auto
    ultimately show ?thesis by (simp add: a Cons)
  qed
  have d: "normalize_name ''Acme Corp\<newline>Following'' = ''Acme Corp''"
    by (simp add: normalize_name_def str_strip_def isspace_def newline_def)
  from a b c d show ?thesis by simp
qed

section \<open>Timeouts of the spinner waits\<close>

text \<open>
  Claim C7. When the spinner does not attach, or does not detach, within its bounded
  wait, the \<^verbatim>\<open>try\<close> block raises \<^verbatim>\<open>PWTimeout\<close>, and the pass goes on all the same: it
  waits the 500 ms, takes the count and returns a value; unless it breaks, the loop
  continues with the next pass. \<^verbatim>\<open>load_everything\<close> as a whole returns a value.
\<close>

theorem settle_timeout_is_not_fatal:
  assumes "\<not> spinner_attached (c i) \<or> \<not> spinner_detached (c i)"
  shows "snd (spinner_cycle (c i)) = Inl PWTimeout \<and>
         (\<exists>b s'. loop_body c i s =
            (Scroll # WaitFor attached 7000 #
               (if spinner_attached (c i) then [WaitFor detached 7000] else []) @
               [WaitForTimeout 500, Count],
             Inr (b, s')) \<and>
            (\<not> b \<longrightarrow>
               fst (for_range c (i # rest) s) = fst (loop_body c i s) @ fst (for_range c rest s') \<and>
               snd (for_range c (i # rest) s) = snd (for_range c rest s'))) \<and>
         (\<exists>l x s'. load_everything c = (l, Inr (x, s')))"
proof -
  have "snd (spinner_cycle (c i)) = Inl PWTimeout"
    using assms by (auto simp: spinner_cycle_def wait_for_def)
  moreover obtain b s' where b: "loop_body c i s = (body_events (c i), Inr (b, s'))"
    by (metis loop_body_eq surj_pair)
  moreover have "\<not> b \<longrightarrow>
      fst (for_range c (i # rest) s) = fst (loop_body c i s) @ fst (for_range c rest s') \<and>
      snd (for_range c (i # rest) s) = snd (for_range c rest s')"
    using b by (simp split: prod.splits)
  moreover have "\<exists>l x s'. load_everything c = (l, Inr (x, s'))"
    using load_everything_total [of c] by blast
  ultimately show ?thesis unfolding body_events_def by blast
qed

text \<open>
  A spinner that never attaches, and one that attaches and never detaches.
\<close>

theorem settle_timeout_is_not_fatal_witness:
  "\<not> spinner_attached (steady 7 0) \<and>
   snd (spinner_cycle (steady 7 0)) = Inl PWTimeout \<and>
   loop_body (steady 7) 0 initial_state =
     ([Scroll, WaitFor attached 7000, WaitForTimeout 500, Count],
      Inr (False, \<lparr>stalled = 0, seen = 7\<rparr>)) \<and>
   fst (for_range (steady 7) [0, 1] initial_state) =
     [Scroll, WaitFor attached 7000, WaitForTimeout 500, Count] @
     fst (for_range (steady 7) [1] \<lparr>stalled = 0, seen = 7\<rparr>) \<and>
   spinner_attached (growing 0) \<and> \<not> spinner_detached (growing 0) \<and>
   snd (spinner_cycle (growing 0)) = Inl PWTimeout \<and>
   loop_body growing 0 initial_state =
     ([Scroll, WaitFor attached 7000, WaitFor detached 7000, WaitForTimeout 500, Count],
      Inr (False, \<lparr>stalled = 0, seen = 1\<rparr>))"
proof -
  have a: "\<not> spinner_attached (steady 7 0) \<or> \<not> spinner_detached (steady 7 0)"
    by (simp add: steady_def)
  have b: "\<not> spinner_attached (growing 0) \<or> \<not> spinner_detached (growing 0)"
    by (simp add: growing_def)
  from settle_timeout_is_not_fatal [of "steady 7" 0 initial_state "[1]", OF a]
       settle_timeout_is_not_fatal [of growing 0 initial_state "[]", OF b]
  show ?thesis
    by (auto simp: steady_def growing_def initial_state_def loop_body_eq body_events_def)
qed

section \<open>Order of the rows\<close>

text \<open>
  Claim C8. When the run completes, its rows are those of the Targets in worklist
  order, each Target's rows in the order of its name elements; the CSV file is written
  after the events of all Targets and receives exactly these rows.
\<close>

theorem rows_in_target_then_dom_order:
  assumes "snd (scrape clean_rows TODAY START_URLS) = Inr all_rows"
  shows "all_rows = concat (map (rows_of TODAY) START_URLS) \<and>
         fst (scrape clean_rows TODAY START_URLS) =
           concat (map target_events START_URLS) @
           [WriteCsv all_rows, PushToGsheet (clean_rows all_rows)]"
proof -
  obtain l r where lr: "for_urls TODAY START_URLS [] = (l, r)" by (cases "for_urls TODAY START_URLS []")
  with assms obtain rows where r: "r = Inr rows" by (cases r) (auto simp: scrape_def)
  with assms lr have "rows = all_rows" by (simp add: scrape_def)
  with for_urls_Inr [of TODAY START_URLS "[]" l rows] lr r show ?thesis
    by (simp add: scrape_def)
qed

text \<open>
  Target A with three items, then Target B with two.
\<close>

theorem rows_in_target_then_dom_order_witness:
  "snd (scrape id ''2024-05-01''
     [(''A'', fixed_target [''a1'', ''a2'', ''a3'']), (''B'', fixed_target [''b1'', ''b2''])]) =
     Inr [[''A'', ''a1'', ''2024-05-01''], [''A'', ''a2'', ''2024-05-01''],
          [''A'', ''a3'', ''2024-05-01''], [''B'', ''b1'', ''2024-05-01''],
          [''B'', ''b2'', ''2024-05-01'']] \<and>
   fst (scrape id ''2024-05-01''
     [(''A'', fixed_target [''a1'', ''a2'', ''a3'']), (''B'', fixed_target [''b1'', ''b2''])]) =
     target_events (''A'', fixed_target [''a1'', ''a2'', ''a3'']) @
     target_events (''B'', fixed_target [''b1'', ''b2'']) @
     [WriteCsv [[''A'', ''a1'', ''2024-05-01''], [''A'', ''a2'', ''2024-05-01''],
          [''A'', ''a3'', ''2024-05-01''], [''B'', ''b1'', ''2024-05-01''],
          [''B'', ''b2'', ''2024-05-01'']],
      PushToGsheet [[''A'', ''a1'', ''2024-05-01''], [''A'', ''a2'', ''2024-05-01''],
          [''A'', ''a3'', ''2024-05-01''], [''B'', ''b1'', ''2024-05-01''],
          [''B'', ''b2'', ''2024-05-01'']]]"
proof -
  let ?U = "[(''A'', fixed_target [''a1'', ''a2'', ''a3'']), (''B'', fixed_target [''b1'', ''b2''])]"
  let ?R = "concat (map (rows_of ''2024-05-01'') ?U)"
  have "for_urls ''2024-05-01'' ?U [] = (concat (map target_events ?U), Inr ([] @ ?R))"
    by (rule for_urls_ok) (simp add: loads_fixed)
  then have fin: "snd (scrape id ''2024-05-01'' ?U) = Inr ?R"
    by (simp add: scrape_def)
  from rows_in_target_then_dom_order [OF fin] fin
  show ?thesis by (simp add: rows_of_fixed)
qed

section \<open>Closing the page\<close>




section \<open>The progress check\<close>

text \<open>
  Claim C10. In the progress check every measured count that differs from \<open>seen\<close>,
  larger or smaller, is progress: \<open>seen\<close> becomes the new count, \<open>stalled\<close> becomes 0 and
  the loop does not break. \<open>stalled\<close> is incremented only when the new count equals
  \<open>seen\<close>, and only then can the loop break. The pass itself never raises.
\<close>

theorem progress_is_any_change:
  "\<exists>l b s'. loop_body c i s = (l, Inr (b, s')) \<and>
     (int (items (c i)) \<noteq> seen s \<longrightarrow>
        seen s' = int (items (c i)) \<and> stalled s' = 0 \<and> \<not> b) \<and>
     (int (items (c i)) = seen s \<longrightarrow>
        seen s' = seen s \<and> stalled s' = stalled s + 1 \<and>
        (b \<longleftrightarrow> STALL_LIMIT \<le> stalled s + 1))"
  by (auto simp: loop_body_eq)

text \<open>
  A list that shrinks from 10 to 7 items when three stalls were already counted: the
  counter is reset. On the next pass the count is 7 again and, the counter standing at
  three, the loop breaks.
\<close>

theorem progress_is_any_change_witness:
  "int (items (steady 7 0)) \<noteq> seen \<lparr>stalled = 3, seen = 10\<rparr> \<and>
   int (items (steady 7 0)) < seen \<lparr>stalled = 3, seen = 10\<rparr> \<and>
   loop_body (steady 7) 0 \<lparr>stalled = 3, seen = 10\<rparr> =
     (body_events (steady 7 0), Inr (False, \<lparr>stalled = 0, seen = 7\<rparr>)) \<and>
   int (items (steady 7 1)) = seen \<lparr>stalled = 3, seen = 7\<rparr> \<and>
   loop_body (steady 7) 1 \<lparr>stalled = 3, seen = 7\<rparr> =
     (body_events (steady 7 1), Inr (True, \<lparr>stalled = 4, seen = 7\<rparr>))"
  using progress_is_any_change [of "steady 7" 0 "\<lparr>stalled = 3, seen = 10\<rparr>"]
        progress_is_any_change [of "steady 7" 1 "\<lparr>stalled = 3, seen = 7\<rparr>"]
  by (simp add: loop_body_eq steady_def STALL_LIMIT_def)

end
